theory Spec2Isabelle
  imports Complex_Main
begin

section \<open>Data model of the artworks table\<close>

text \<open>
  The component \<open>ArtworksTable\<close> keeps a page of catalogue rows, the page cursor, the
  remote total and a map of selected rows. JavaScript numbers that hold identifiers,
  page numbers and counts are integers here; an optional field is an \<open>option\<close>.
  The effect that mirrors the map into \<open>localStorage\<close> after each change does not
  alter the map and is left out.
\<close>

record Artwork =
  a_id :: int
  a_title :: "string option"
  a_artist_display :: "string option"
  a_place_of_origin :: "string option"
  a_date_start :: "int option"
  a_image_id :: "string option"

record SelectedMeta =
  m_id :: int
  m_title :: "string option"
  m_artist_display :: "string option"

datatype Strategy = First | Random | Every

type_synonym SelectionMap = "int \<rightharpoonup> SelectedMeta"

text \<open>
  The outcome of one request to the catalogue: the promise rejects, or it resolves with
  a body whose \<open>data\<close> field is present or not (\<open>resp.data.data || []\<close>).
\<close>

datatype ApiResult = Rejected | Response "Artwork list option"

record AppState =
  rows :: "Artwork list"
  page :: int
  totalRecords :: int
  selectedMap :: SelectionMap
  selectNumber :: "int option"
  strategy :: Strategy
  addToExisting :: bool
  selectingLoading :: bool
  overlayVisible :: bool
  showClearDialog :: bool

definition rowsPerPage :: int where
  "rowsPerPage = 12"

section \<open>Restoring the selection at start-up\<close>

text \<open>
  \<open>JSON.parse\<close> belongs to the platform, so it is a parameter of the initializer:
  it throws a \<open>SyntaxError\<close> or returns a JavaScript value. The initializer returns
  that value as it is; TypeScript's annotation \<open>Record<number, SelectedMeta>\<close> checks
  nothing at run time.
\<close>

datatype JsValue =
    JNull
  | JBool bool
  | JNumber int
  | JString string
  | JArray "JsValue list"
  | JObject "(string \<times> JsValue) list"

datatype ParseResult = SyntaxError | Parsed JsValue

text \<open>
  The initializer of \<open>selectedMap\<close> (lines 55-62 of the component).
  \<open>localStorage.getItem\<close> gives \<open>null\<close> (here \<open>None\<close>) for an absent key. The
  test \<open>raw ? ... : {}\<close> also sends the empty string to \<open>{}\<close>, and the \<open>catch\<close>
  turns a throwing \<open>JSON.parse\<close> into \<open>{}\<close>.
\<close>

definition initSelectedMap :: "(string \<Rightarrow> ParseResult) \<Rightarrow> string option \<Rightarrow> JsValue" where
  "initSelectedMap parse raw =
     (case raw of
        None \<Rightarrow> JObject []
      | Some s \<Rightarrow>
          if s = [] then JObject []
          else (case parse s of SyntaxError \<Rightarrow> JObject [] | Parsed v \<Rightarrow> v))"

section \<open>Operations on the selection\<close>

definition toMeta :: "Artwork \<Rightarrow> SelectedMeta" where
  "toMeta item =
     \<lparr>m_id = a_id item, m_title = a_title item, m_artist_display = a_artist_display item\<rparr>"

definition isSelected :: "AppState \<Rightarrow> Artwork \<Rightarrow> bool" where
  "isSelected st row = (selectedMap st (a_id row) \<noteq> None)"

text \<open>
  \<open>onCheckboxChange\<close>, \<open>deselectId\<close> and \<open>doClearSelections\<close> (lines 118-150).
  \<open>event.checked ?? false\<close>: an absent flag counts as unchecked.
\<close>

definition onCheckboxChange :: "Artwork \<Rightarrow> bool option \<Rightarrow> AppState \<Rightarrow> AppState" where
  "onCheckboxChange row checked st =
     (let c = (case checked of None \<Rightarrow> False | Some b \<Rightarrow> b)
      in if c then st\<lparr>selectedMap := (selectedMap st)(a_id row \<mapsto> toMeta row)\<rparr>
         else st\<lparr>selectedMap := (selectedMap st)(a_id row := None)\<rparr>)"

definition deselectId :: "int \<Rightarrow> AppState \<Rightarrow> AppState" where
  "deselectId i st = st\<lparr>selectedMap := (selectedMap st)(i := None)\<rparr>"

definition doClearSelections :: "AppState \<Rightarrow> AppState" where
  "doClearSelections st = st\<lparr>selectedMap := Map.empty, showClearDialog := False\<rparr>"

section \<open>Bulk selection\<close>

subsection \<open>Fetching further pages\<close>

text \<open>
  \<open>fetchPageData\<close> (lines 152-161) catches every failure of the request and returns
  the empty array for it.
\<close>

definition fetchPageData :: "(int \<Rightarrow> ApiResult) \<Rightarrow> int \<Rightarrow> Artwork list" where
  "fetchPageData api p =
     (case api p of
        Rejected \<Rightarrow> []
      | Response None \<Rightarrow> []
      | Response (Some d) \<Rightarrow> d)"

definition totalPages :: "AppState \<Rightarrow> int" where
  "totalPages st = max 1 \<lceil>real_of_int (totalRecords st) / real_of_int rowsPerPage\<rceil>"

text \<open>
  The \<open>while\<close> loop of \<open>applyAutoSelect\<close> (lines 177-181). Beside the buffer it
  returns the page numbers it requested, in order: the network calls are the loop's only
  effect.
\<close>

function fetch_loop ::
  "(int \<Rightarrow> ApiResult) \<Rightarrow> int \<Rightarrow> int \<Rightarrow> Artwork list \<Rightarrow> int \<Rightarrow> int list
    \<Rightarrow> Artwork list \<times> int list" where
  "fetch_loop api n tp combined nextPage fetched =
     (if int (length combined) < n \<and> nextPage \<le> tp
      then fetch_loop api n tp (combined @ fetchPageData api nextPage) (nextPage + 1)
             (fetched @ [nextPage])
      else (combined, fetched))"
  by pat_completeness auto
termination
  by (relation "measure (\<lambda>(api, n, tp, combined, nextPage, fetched). nat (tp + 1 - nextPage))")
    auto

declare fetch_loop.simps [simp del]

subsection \<open>Choosing indices\<close>

text \<open>
  \<open>pool.splice(pick, 1)\<close> after ECMAScript: a negative start counts from the end, a
  start beyond the end is clamped, and at most one element is removed. The result is
  the removed elements and the array that remains.
\<close>

definition splice1 :: "'a list \<Rightarrow> int \<Rightarrow> 'a list \<times> 'a list" where
  "splice1 xs start =
     (let len = int (length xs);
          actualStart = (if start < 0 then max (len + start) 0 else min start len);
          deleteCount = min 1 (len - actualStart)
      in (take (nat deleteCount) (drop (nat actualStart) xs),
          take (nat actualStart) xs @ drop (nat (actualStart + deleteCount)) xs))"

text \<open>Element \<open>[0]\<close> of an array: \<open>undefined\<close> (here \<open>None\<close>) when it is empty.\<close>

definition elem0 :: "'a list \<Rightarrow> 'a option" where
  "elem0 xs = (case xs of [] \<Rightarrow> None | x # _ \<Rightarrow> Some x)"

text \<open>
  \<open>Math.random() * pool.length\<close> is a product of IEEE 754 doubles, rounded to the
  nearest double with ties to even. A non-negative finite double is \<open>mant * 2 ^ expo\<close>
  with \<open>mant < 2 ^ 53\<close> and \<open>- 1074 \<le> expo\<close>. A length is below \<open>2 ^ 32\<close> and so a
  double itself; the exact product is \<open>(mant * len) * 2 ^ expo\<close>, and rounding keeps its
  53 leading bits. No product of a draw below 1 with a length overflows, and none falls
  below the grid of its factor, so this is all of the rounding.
\<close>

record Dbl =
  mant :: nat
  expo :: int

text \<open>The number of bits by which \<open>M\<close> exceeds 53 bits.\<close>

function excess_bits :: "nat \<Rightarrow> nat" where
  "excess_bits M = (if M < 2 ^ 53 then 0 else Suc (excess_bits (M div 2)))"
  by pat_completeness auto
termination
  by (relation "measure (\<lambda>M. M)") auto

declare excess_bits.simps [simp del]

text \<open>\<open>M / 2 ^ s\<close> rounded to the nearest integer, a tie going to the even one.\<close>

definition round_nearest_even :: "nat \<Rightarrow> nat \<Rightarrow> nat" where
  "round_nearest_even M s =
     (let q = M div 2 ^ s; r = M mod 2 ^ s
      in if 2 ^ s < 2 * r \<or> (2 * r = 2 ^ s \<and> odd q) then q + 1 else q)"

definition times_length :: "Dbl \<Rightarrow> nat \<Rightarrow> Dbl" where
  "times_length d len =
     (let M = mant d * len; s = excess_bits M
      in \<lparr>mant = round_nearest_even M s, expo = expo d + int s\<rparr>)"

text \<open>\<open>Math.floor\<close> of a non-negative double.\<close>

definition math_floor :: "Dbl \<Rightarrow> int" where
  "math_floor d =
     (if 0 \<le> expo d then int (mant d) * 2 ^ nat (expo d)
      else int (mant d) div 2 ^ nat (- expo d))"

text \<open>
  The \<open>for\<close> loop of the random strategy (lines 191-194). \<open>rnd i\<close> is the double that
  the \<open>i\<close>-th call of \<open>Math.random()\<close> returns.
\<close>

function random_loop ::
  "(nat \<Rightarrow> Dbl) \<Rightarrow> int \<Rightarrow> nat \<Rightarrow> int list \<Rightarrow> int option list \<Rightarrow> int option list" where
  "random_loop rnd pickCount i pool indices =
     (if int i < pickCount
      then (let pick = math_floor (times_length (rnd i) (length pool));
                sp = splice1 pool pick
            in random_loop rnd pickCount (Suc i) (snd sp) (indices @ [elem0 (fst sp)]))
      else indices)"
  by pat_completeness auto
termination
  by (relation "measure (\<lambda>(rnd, pickCount, i, pool, indices). nat (pickCount - int i))") auto

declare random_loop.simps [simp del]

text \<open>The \<open>while\<close> loop of the every-Nth strategy (lines 200-204).\<close>

function every_loop ::
  "int \<Rightarrow> int \<Rightarrow> int \<Rightarrow> int option list \<Rightarrow> int \<Rightarrow> int option list" where
  "every_loop step pickCount availableCount indices idx =
     (if int (length indices) < pickCount \<and> idx < availableCount
      then every_loop step pickCount availableCount (indices @ [Some idx]) (idx + step)
      else indices)"
  by pat_completeness auto
termination
  by (relation "measure (\<lambda>(step, pickCount, availableCount, indices, idx).
        nat (pickCount - int (length indices)))") auto

declare every_loop.simps [simp del]

text \<open>\<open>Array.from({ length: pickCount }, (_, i) => i)\<close>.\<close>

definition array_from :: "int \<Rightarrow> int list" where
  "array_from len = map int [0..<nat len]"

definition choose_indices ::
  "Strategy \<Rightarrow> (nat \<Rightarrow> Dbl) \<Rightarrow> int option \<Rightarrow> int \<Rightarrow> int \<Rightarrow> int option list" where
  "choose_indices strat rnd selNum pickCount availableCount =
     (case strat of
        First \<Rightarrow> map Some (array_from pickCount)
      | Random \<Rightarrow> random_loop rnd pickCount 0 (array_from availableCount) []
      | Every \<Rightarrow>
          (let step = (case selNum of
                         None \<Rightarrow> 1
                       | Some s \<Rightarrow> if s \<noteq> 0 \<and> s \<ge> 1 then s else 1)
           in if step = 1 then map Some (array_from pickCount)
              else every_loop step pickCount availableCount [] 0))"

subsection \<open>Writing the picked rows into the selection\<close>

text \<open>\<open>combined[i]\<close>: \<open>undefined\<close> outside the array and for an undefined index.\<close>

definition at_index :: "'a list \<Rightarrow> int option \<Rightarrow> 'a option" where
  "at_index xs i =
     (case i of
        None \<Rightarrow> None
      | Some k \<Rightarrow> if 0 \<le> k \<and> k < int (length xs) then Some (xs ! nat k) else None)"

definition put_item :: "Artwork \<Rightarrow> SelectionMap \<Rightarrow> SelectionMap" where
  "put_item item base = base(a_id item \<mapsto> toMeta item)"

fun store_picked :: "Artwork list \<Rightarrow> int option list \<Rightarrow> SelectionMap \<Rightarrow> SelectionMap" where
  "store_picked combined [] base = base"
| "store_picked combined (i # is) base =
     store_picked combined is
       (case at_index combined i of None \<Rightarrow> base | Some item \<Rightarrow> put_item item base)"

subsection \<open>The handler\<close>

text \<open>
  \<open>applyAutoSelect\<close> (lines 163-221) returns the next state and the pages it
  requested. The handler reads \<open>rows\<close>, \<open>page\<close>, \<open>totalRecords\<close> and \<open>selectedMap\<close>
  from the render it was created in and runs here as one step. \<open>target_count\<close> is its
  \<open>n = selectNumber ?? 0\<close>, \<open>gather\<close> its buffer and request log, \<open>picked_indices\<close> its
  \<open>indices\<close>.
\<close>

definition target_count :: "AppState \<Rightarrow> int" where
  "target_count st = (case selectNumber st of None \<Rightarrow> 0 | Some v \<Rightarrow> v)"

definition gather :: "(int \<Rightarrow> ApiResult) \<Rightarrow> AppState \<Rightarrow> Artwork list \<times> int list" where
  "gather api st = fetch_loop api (target_count st) (totalPages st) (rows st) (page st + 1) []"

definition picked_indices :: "(int \<Rightarrow> ApiResult) \<Rightarrow> (nat \<Rightarrow> Dbl) \<Rightarrow> AppState \<Rightarrow> int option list" where
  "picked_indices api rnd st =
     (let combined = fst (gather api st);
          availableCount = int (length combined);
          pickCount = min (target_count st) availableCount
      in choose_indices (strategy st) rnd (selectNumber st) pickCount availableCount)"

definition applyAutoSelect ::
  "(int \<Rightarrow> ApiResult) \<Rightarrow> (nat \<Rightarrow> Dbl) \<Rightarrow> AppState \<Rightarrow> AppState \<times> int list" where
  "applyAutoSelect api rnd st =
     (if target_count st \<le> 0 then (st\<lparr>overlayVisible := False\<rparr>, [])
      else
        (let combined = fst (gather api st);
             fetched = snd (gather api st);
             indices = picked_indices api rnd st;
             base = (if addToExisting st then selectedMap st else Map.empty)
         in (st\<lparr>selectedMap := store_picked combined indices base,
                 overlayVisible := False,
                 selectingLoading := False\<rparr>,
             fetched)))"

section \<open>Notions used to state the properties\<close>

text \<open>The items of the pages \<open>p..q\<close>, in page order, as \<open>fetchPageData\<close> delivers them.\<close>

definition pages_data :: "(int \<Rightarrow> ApiResult) \<Rightarrow> int \<Rightarrow> int \<Rightarrow> Artwork list" where
  "pages_data api p q = concat (map (fetchPageData api) [p..q])"

text \<open>How many of \<open>idx, idx + step, idx + 2 * step, ...\<close> lie below \<open>availableCount\<close>.\<close>

definition strides :: "int \<Rightarrow> int \<Rightarrow> int \<Rightarrow> nat" where
  "strides step idx availableCount = nat ((availableCount - idx + step - 1) div step)"

text \<open>The rows that the \<open>forEach\<close> writes, in order: an undefined item is skipped.\<close>

fun picked_items :: "Artwork list \<Rightarrow> int option list \<Rightarrow> Artwork list" where
  "picked_items combined [] = []"
| "picked_items combined (i # is) =
     (case at_index combined i of
        None \<Rightarrow> picked_items combined is
      | Some item \<Rightarrow> item # picked_items combined is)"

text \<open>The entries of one bulk selection alone: what the \<open>forEach\<close> writes into \<open>{}\<close>.\<close>

definition new_entries :: "(int \<Rightarrow> ApiResult) \<Rightarrow> (nat \<Rightarrow> Dbl) \<Rightarrow> AppState \<Rightarrow> SelectionMap" where
  "new_entries api rnd st =
     store_picked (fst (gather api st)) (picked_indices api rnd st) Map.empty"

text \<open>The invariant of the selection: every key is the identifier of its record.\<close>

definition key_inv :: "SelectionMap \<Rightarrow> bool" where
  "key_inv m = (\<forall>k v. m k = Some v \<longrightarrow> m_id v = k)"

text \<open>The value of a double is below 1.\<close>

definition below_one :: "Dbl \<Rightarrow> bool" where
  "below_one d = (mant d = 0 \<or> (expo d < 0 \<and> mant d < 2 ^ nat (- expo d)))"

text \<open>The contract of \<open>Math.random()\<close>: every draw is a double in \<open>[0, 1)\<close>.\<close>

definition unit_draws :: "(nat \<Rightarrow> Dbl) \<Rightarrow> bool" where
  "unit_draws rnd = (\<forall>i. mant (rnd i) < 2 ^ 53 \<and> - 1074 \<le> expo (rnd i) \<and> below_one (rnd i))"

text \<open>
  The key and the record that the \<open>forEach\<close> stores for a row (line 212), written out.
\<close>

definition entry_of :: "Artwork \<Rightarrow> int \<times> SelectedMeta" where
  "entry_of item =
     (a_id item,
      \<lparr>m_id = a_id item, m_title = a_title item, m_artist_display = a_artist_display item\<rparr>)"

text \<open>
  \<open>Object.keys(selectedMap).length\<close>, which the first render evaluates for the heading
  of the side panel (line 372). \<open>Object.keys\<close> throws a \<open>TypeError\<close> on \<open>null\<close>; a
  number or a boolean has no own keys, a string and an array have their indices.
\<close>

datatype JsError = TypeError

fun selected_count :: "JsValue \<Rightarrow> JsError + nat" where
  "selected_count JNull = Inl TypeError"
| "selected_count (JBool b) = Inr 0"
| "selected_count (JNumber n) = Inr 0"
| "selected_count (JString s) = Inr (length s)"
| "selected_count (JArray xs) = Inr (length xs)"
| "selected_count (JObject kvs) = Inr (length kvs)"

subsection \<open>Concrete states for the scenarios\<close>

definition mk_artwork :: "int \<Rightarrow> Artwork" where
  "mk_artwork i =
     \<lparr>a_id = i, a_title = Some ''untitled'', a_artist_display = None,
      a_place_of_origin = None, a_date_start = None, a_image_id = None\<rparr>"

definition mk_state :: "Artwork list \<Rightarrow> int \<Rightarrow> int \<Rightarrow> int option \<Rightarrow> Strategy \<Rightarrow> bool \<Rightarrow> AppState" where
  "mk_state rs p tot sel strat add =
     \<lparr>rows = rs, page = p, totalRecords = tot, selectedMap = Map.empty,
      selectNumber = sel, strategy = strat, addToExisting = add,
      selectingLoading = False, overlayVisible = True, showClearDialog = False\<rparr>"

text \<open>A catalogue in which page \<open>p\<close> holds the two rows \<open>10 * p\<close> and \<open>10 * p + 1\<close>.\<close>

definition two_per_page :: "int \<Rightarrow> ApiResult" where
  "two_per_page p = Response (Some [mk_artwork (10 * p), mk_artwork (10 * p + 1)])"

text \<open>The same catalogue with the request for page 2 failing.\<close>

definition page2_fails :: "int \<Rightarrow> ApiResult" where
  "page2_fails p = (if p = 2 then Rejected else two_per_page p)"

text \<open>
  Draws given as a list, with 0 after its end; the doubles 0.6, 0.5 and the largest
  double below 1.
\<close>

definition zero_draw :: Dbl where
  "zero_draw = \<lparr>mant = 0, expo = 0\<rparr>"

definition draws_of :: "Dbl list \<Rightarrow> nat \<Rightarrow> Dbl" where
  "draws_of ds i = (if i < length ds then ds ! i else zero_draw)"

definition draw_0_6 :: Dbl where
  "draw_0_6 = \<lparr>mant = 5404319552844595, expo = - 53\<rparr>"

definition draw_half :: Dbl where
  "draw_half = \<lparr>mant = 4503599627370496, expo = - 53\<rparr>"

definition draw_max :: Dbl where
  "draw_max = \<lparr>mant = 9007199254740991, expo = - 53\<rparr>"

text \<open>A selection put in place of the empty one of \<open>mk_state\<close>.\<close>

definition with_selection :: "SelectionMap \<Rightarrow> AppState \<Rightarrow> AppState" where
  "with_selection m st = st\<lparr>selectedMap := m\<rparr>"

text \<open>
  A stand-in for \<open>JSON.parse\<close> that agrees with it on the texts of the scenarios:
  \<open>null\<close> and \<open>[1]\<close> are JSON, \<open>not json\<close> is not.
\<close>

definition sample_parse :: "string \<Rightarrow> ParseResult" where
  "sample_parse s =
     (if s = ''null'' then Parsed JNull
      else if s = ''[1]'' then Parsed (JArray [JNumber 1])
      else SyntaxError)"

section \<open>The loops, step by step\<close>

lemma fetch_loop_step:
  "int (length combined) < n \<Longrightarrow> nextPage \<le> tp \<Longrightarrow>
   fetch_loop api n tp combined nextPage fetched =
     fetch_loop api n tp (combined @ fetchPageData api nextPage) (nextPage + 1)
       (fetched @ [nextPage])"
  by (subst fetch_loop.simps) simp

lemma fetch_loop_stop:
  "\<not> (int (length combined) < n \<and> nextPage \<le> tp) \<Longrightarrow>
   fetch_loop api n tp combined nextPage fetched = (combined, fetched)"
  by (subst fetch_loop.simps) auto

lemma random_loop_step:
  "int i < pickCount \<Longrightarrow>
   random_loop rnd pickCount i pool indices =
     random_loop rnd pickCount (Suc i)
       (snd (splice1 pool (math_floor (times_length (rnd i) (length pool)))))
       (indices @ [elem0 (fst (splice1 pool (math_floor (times_length (rnd i) (length pool)))))])"
  by (subst random_loop.simps) (simp add: Let_def)

lemma random_loop_stop:
  "\<not> int i < pickCount \<Longrightarrow> random_loop rnd pickCount i pool indices = indices"
  by (subst random_loop.simps) simp

lemma every_loop_step:
  "int (length indices) < pickCount \<Longrightarrow> idx < availableCount \<Longrightarrow>
   every_loop step pickCount availableCount indices idx =
     every_loop step pickCount availableCount (indices @ [Some idx]) (idx + step)"
  by (subst every_loop.simps) simp

lemma every_loop_stop:
  "\<not> (int (length indices) < pickCount \<and> idx < availableCount) \<Longrightarrow>
   every_loop step pickCount availableCount indices idx = indices"
  by (subst every_loop.simps) auto

section \<open>The fetch loop\<close>

lemma pages_data_none: "q < p \<Longrightarrow> pages_data api p q = []"
  by (simp add: pages_data_def)

lemma pages_data_first:
  "p \<le> q \<Longrightarrow> pages_data api p q = fetchPageData api p @ pages_data api (p + 1) q"
  by (simp add: pages_data_def upto_rec1)

text \<open>
  The loop requests the pages \<open>np..q\<close> for some last page \<open>q\<close> (\<open>q = np - 1\<close>: none),
  the buffer was short before each request, and the loop stops before the last page
  only with a full buffer.
\<close>

lemma fetch_loop_spec:
  "\<exists>q. np - 1 \<le> q \<and> q \<le> max (np - 1) tp \<and>
       fetch_loop api n tp c np f = (c @ pages_data api np q, f @ [np..q]) \<and>
       (\<forall>j. np - 1 \<le> j \<and> j < q \<longrightarrow> int (length (c @ pages_data api np j)) < n) \<and>
       (q < tp \<longrightarrow> n \<le> int (length (c @ pages_data api np q)))"
proof (induction api n tp c np f rule: fetch_loop.induct)
  case (1 api n tp c np f)
  show ?case
  proof (cases "int (length c) < n \<and> np \<le> tp")
    case True
    from 1[OF True] obtain q where q0: "np \<le> q" and qb: "q \<le> max np tp"
      and res: "fetch_loop api n tp (c @ fetchPageData api np) (np + 1) (f @ [np]) =
                 ((c @ fetchPageData api np) @ pages_data api (np + 1) q,
                  (f @ [np]) @ [np + 1..q])"
      and below: "\<forall>j. np \<le> j \<and> j < q \<longrightarrow>
                 int (length ((c @ fetchPageData api np) @ pages_data api (np + 1) j)) < n"
      and full: "q < tp \<longrightarrow>
                 n \<le> int (length ((c @ fetchPageData api np) @ pages_data api (np + 1) q))"
      by auto
    have a: "np - 1 \<le> q" using q0 by simp
    have b: "q \<le> max (np - 1) tp" using qb True by simp
    have c: "fetch_loop api n tp c np f = (c @ pages_data api np q, f @ [np..q])"
      using True res q0 by (simp add: fetch_loop_step pages_data_first upto_rec1)
    have d: "\<forall>j. np - 1 \<le> j \<and> j < q \<longrightarrow> int (length (c @ pages_data api np j)) < n"
    proof (intro allI impI)
      fix j assume j: "np - 1 \<le> j \<and> j < q"
      show "int (length (c @ pages_data api np j)) < n"
      proof (cases "j < np")
        case True
        then show ?thesis using \<open>int (length c) < n \<and> np \<le> tp\<close> by (simp add: pages_data_none)
      next
        case False
        then have "int (length ((c @ fetchPageData api np) @ pages_data api (np + 1) j)) < n"
          using below j by simp
        then show ?thesis using False by (simp add: pages_data_first)
      qed
    qed
    have e: "q < tp \<longrightarrow> n \<le> int (length (c @ pages_data api np q))"
      using full q0 by (simp add: pages_data_first)
    from a b c d e show ?thesis by blast
  next
    case False
    have "fetch_loop api n tp c np f = (c @ pages_data api np (np - 1), f @ [np..np - 1])"
      using False by (simp add: fetch_loop_stop pages_data_none)
    moreover have "np - 1 < tp \<longrightarrow> n \<le> int (length (c @ pages_data api np (np - 1)))"
      using False by (auto simp: pages_data_none)
    ultimately show ?thesis
      by (intro exI[of _ "np - 1"]) simp
  qed
qed

section \<open>The every-Nth loop\<close>

lemma strides_none: "0 < step \<Longrightarrow> availableCount \<le> idx \<Longrightarrow> strides step idx availableCount = 0"
proof -
  assume s: "0 < step" and a: "availableCount \<le> idx"
  then have "availableCount - idx + step - 1 \<le> step - 1" by simp
  then have "(availableCount - idx + step - 1) div step \<le> (step - 1) div step"
    using s by (intro zdiv_mono1) simp_all
  moreover have "(step - 1) div step = 0" using s by simp
  ultimately show ?thesis by (simp add: strides_def)
qed

lemma strides_next:
  assumes "0 < step" "idx < availableCount"
  shows "strides step idx availableCount = Suc (strides step (idx + step) availableCount)"
proof -
  have nn: "0 \<le> (availableCount - idx - 1) div step"
    using assms by (simp add: pos_imp_zdiv_nonneg_iff)
  have "availableCount - idx + step - 1 = (availableCount - idx - 1) + step" by simp
  moreover have "((availableCount - idx - 1) + step) div step = (availableCount - idx - 1) div step + 1"
    using assms by (subst div_add_self2) simp_all
  ultimately have "(availableCount - idx + step - 1) div step = (availableCount - idx - 1) div step + 1"
    by (simp only:)
  moreover have "availableCount - (idx + step) + step - 1 = availableCount - idx - 1" by simp
  ultimately show ?thesis using nn by (simp add: strides_def nat_add_distrib)
qed

lemma every_loop_closed:
  "0 < step \<Longrightarrow>
   every_loop step pickCount availableCount indices idx =
     indices @ map (\<lambda>j. Some (idx + int j * step))
       [0..<min (nat (pickCount - int (length indices))) (strides step idx availableCount)]"
proof (induction step pickCount availableCount indices idx rule: every_loop.induct)
  case (1 step pickCount availableCount indices idx)
  show ?case
  proof (cases "int (length indices) < pickCount \<and> idx < availableCount")
    case True
    have cnt: "nat (pickCount - int (length indices)) =
               Suc (nat (pickCount - int (length (indices @ [Some idx]))))"
      using True by auto
    have "every_loop step pickCount availableCount indices idx =
          every_loop step pickCount availableCount (indices @ [Some idx]) (idx + step)"
      using True by (simp add: every_loop_step)
    also have "\<dots> = (indices @ [Some idx]) @ map (\<lambda>j. Some (idx + step + int j * step))
       [0..<min (nat (pickCount - int (length (indices @ [Some idx]))))
              (strides step (idx + step) availableCount)]"
      using 1 True by simp
    also have "\<dots> = indices @ map (\<lambda>j. Some (idx + int j * step))
       [0..<Suc (min (nat (pickCount - int (length (indices @ [Some idx]))))
              (strides step (idx + step) availableCount))]"
      by (simp only: map_upt_Suc) (simp add: algebra_simps)
    also have "Suc (min (nat (pickCount - int (length (indices @ [Some idx]))))
              (strides step (idx + step) availableCount)) =
          min (nat (pickCount - int (length indices))) (strides step idx availableCount)"
      using strides_next[of step idx availableCount] True "1.prems" cnt by simp
    finally show ?thesis .
  next
    case False
    then have "min (nat (pickCount - int (length indices))) (strides step idx availableCount) = 0"
      using strides_none[of step availableCount idx] "1.prems" by auto
    then show ?thesis using False by (simp add: every_loop_stop)
  qed
qed

section \<open>The random loop\<close>

lemma excess_bits_small: "M < 2 ^ 53 \<Longrightarrow> excess_bits M = 0"
  by (subst excess_bits.simps) simp

lemma excess_bits_large: "\<not> M < 2 ^ 53 \<Longrightarrow> excess_bits M = Suc (excess_bits (M div 2))"
  by (subst excess_bits.simps) simp

lemma excess_bits_upper: "M < 2 ^ 53 * 2 ^ excess_bits M"
proof (induction M rule: excess_bits.induct)
  case (1 M)
  show ?case
  proof (cases "M < 2 ^ 53")
    case True
    then show ?thesis by (simp add: excess_bits_small)
  next
    case False
    then have "M div 2 < 2 ^ 53 * 2 ^ excess_bits (M div 2)" using 1 by simp
    then have "M < 2 * (2 ^ 53 * 2 ^ excess_bits (M div 2))" by linarith
    then show ?thesis using False by (simp add: excess_bits_large)
  qed
qed

lemma excess_bits_lower: "2 ^ 53 \<le> M \<Longrightarrow> 2 ^ 53 * 2 ^ excess_bits M \<le> 2 * M"
proof (induction M rule: excess_bits.induct)
  case (1 M)
  then have big: "\<not> M < 2 ^ 53" by simp
  show ?case
  proof (cases "M div 2 < 2 ^ 53")
    case True
    then have "excess_bits M = 1" using big by (simp add: excess_bits_large excess_bits_small)
    then show ?thesis using "1.prems" by simp
  next
    case False
    then have "2 ^ 53 * 2 ^ excess_bits (M div 2) \<le> 2 * (M div 2)" using 1 big by simp
    then have "2 * (2 ^ 53 * 2 ^ excess_bits (M div 2)) \<le> 2 * M" by linarith
    then show ?thesis using big by (simp add: excess_bits_large)
  qed
qed

lemma round_nearest_even_cases:
  "round_nearest_even M s = M div 2 ^ s \<or>
   (round_nearest_even M s = M div 2 ^ s + 1 \<and> 2 ^ s \<le> 2 * (M mod 2 ^ s))"
  by (auto simp: round_nearest_even_def Let_def)

lemma rounded_product_below:
  assumes m: "m < 2 ^ 53" and mk: "m < 2 ^ k" and len: "0 < len"
  shows "round_nearest_even (m * len) (excess_bits (m * len)) * 2 ^ excess_bits (m * len)
           < len * 2 ^ k"
proof -
  define M where "M = m * len"
  define s where "s = excess_bits M"
  have "m + 1 \<le> 2 ^ k" using mk by simp
  then have "(m + 1) * len \<le> 2 ^ k * len" by (rule mult_le_mono1)
  then have top: "M + len \<le> len * 2 ^ k" by (simp add: M_def algebra_simps)
  have dm: "M = M div 2 ^ s * 2 ^ s + M mod 2 ^ s" by (rule div_mult_mod_eq[symmetric])
  consider (down) "round_nearest_even M s = M div 2 ^ s"
    | (up) "round_nearest_even M s = M div 2 ^ s + 1" "2 ^ s \<le> 2 * (M mod 2 ^ s)"
    using round_nearest_even_cases[of M s] by blast
  then have "round_nearest_even M s * 2 ^ s < len * 2 ^ k"
  proof cases
    case down
    have "M div 2 ^ s * 2 ^ s \<le> M" by simp
    then have "M div 2 ^ s * 2 ^ s < len * 2 ^ k" using top len by linarith
    then show ?thesis using down by simp
  next
    case up
    have rlt: "M mod 2 ^ s < 2 ^ s" by simp
    have "s \<noteq> 0"
    proof
      assume "s = 0"
      then show False using up(2) by simp
    qed
    then have "\<not> M < 2 ^ 53" using excess_bits_small[of M] by (auto simp: s_def)
    then have "2 ^ 53 * 2 ^ s \<le> 2 * M" using excess_bits_lower[of M] by (simp add: s_def)
    moreover have "M < 2 ^ 53 * len" using m len by (simp add: M_def)
    ultimately have "(2 ^ 53 :: nat) * 2 ^ s < 2 ^ 53 * (2 * len)" by simp
    then have small: "(2::nat) ^ s < 2 * len" by simp
    have "2 * ((M div 2 ^ s + 1) * 2 ^ s) = 2 * (M div 2 ^ s * 2 ^ s) + 2 * 2 ^ s"
      by (simp add: algebra_simps)
    also have "\<dots> \<le> 2 * (M div 2 ^ s * 2 ^ s) + (2 * (M mod 2 ^ s) + 2 ^ s)"
      using up(2) by simp
    also have "\<dots> = 2 * M + 2 ^ s" using dm by simp
    also have "\<dots> < 2 * M + 2 * len" using small by simp
    also have "\<dots> \<le> 2 * (len * 2 ^ k)" using top by simp
    finally show ?thesis using up(1) by simp
  qed
  then show ?thesis by (simp add: M_def s_def)
qed

lemma pick_in_pool:
  assumes "mant d < 2 ^ 53" "below_one d" "0 < len"
  shows "0 \<le> math_floor (times_length d len) \<and> math_floor (times_length d len) < int len"
proof -
  define s where "s = excess_bits (mant d * len)"
  define q where "q = round_nearest_even (mant d * len) s"
  have tl: "times_length d len = \<lparr>mant = q, expo = expo d + int s\<rparr>"
    by (simp add: times_length_def Let_def q_def s_def)
  have nonneg: "0 \<le> math_floor (times_length d len)"
    by (simp add: tl math_floor_def pos_imp_zdiv_nonneg_iff)
  have "math_floor (times_length d len) < int len"
  proof (cases "mant d = 0")
    case True
    then have "q = 0" by (simp add: q_def s_def excess_bits_small round_nearest_even_def)
    then show ?thesis using assms(3) by (simp add: tl math_floor_def)
  next
    case False
    define k where "k = nat (- expo d)"
    have e: "expo d = - int k" and mk: "mant d < 2 ^ k"
      using False assms(2) by (auto simp: below_one_def k_def)
    have key: "q * 2 ^ s < len * 2 ^ k"
      using rounded_product_below[OF assms(1) mk assms(3)] by (simp add: q_def s_def)
    show ?thesis
    proof (cases "k \<le> s")
      case True
      then have "(2::nat) ^ s = 2 ^ (s - k) * 2 ^ k" by (simp add: power_add[symmetric])
      then have "(q * 2 ^ (s - k)) * 2 ^ k < len * 2 ^ k" using key by (simp add: mult.assoc)
      then have "q * 2 ^ (s - k) < len" by simp
      then have "int q * 2 ^ (s - k) < int len"
        by (metis of_nat_less_iff of_nat_mult of_nat_numeral of_nat_power)
      moreover have "nat (expo d + int s) = s - k" using True e by simp
      ultimately show ?thesis using True e by (simp add: tl math_floor_def)
    next
      case False
      then have "(2::nat) ^ k = 2 ^ (k - s) * 2 ^ s" by (simp add: power_add[symmetric])
      then have "q * 2 ^ s < (len * 2 ^ (k - s)) * 2 ^ s" using key by (simp add: mult.assoc)
      then have "q < len * 2 ^ (k - s)" by simp
      then have "q div 2 ^ (k - s) < len" by (rule less_mult_imp_div_less)
      then have "int (q div 2 ^ (k - s)) < int len" by simp
      then have "int q div 2 ^ (k - s) < int len" by (simp add: of_nat_div)
      moreover have "nat (- (expo d + int s)) = k - s" using False e by simp
      ultimately show ?thesis using False e by (simp add: tl math_floor_def)
    qed
  qed
  then show ?thesis using nonneg by simp
qed

lemma splice1_in_range:
  assumes "0 \<le> k" "k < int (length xs)"
  shows "splice1 xs k = ([xs ! nat k], take (nat k) xs @ drop (Suc (nat k)) xs)"
proof -
  have "nat k < length xs" using assms by simp
  then have "take 1 (drop (nat k) xs) = [xs ! nat k]"
    by (simp add: take_Suc_conv_app_nth)
  moreover have "nat (k + 1) = Suc (nat k)" using assms by simp
  ultimately show ?thesis using assms
    by (simp add: splice1_def Let_def min_def)
qed

lemma remove_nth_props:
  assumes "k < length xs" "distinct xs"
  shows "distinct (take k xs @ drop (Suc k) xs)"
    and "set (take k xs @ drop (Suc k) xs) = set xs - {xs ! k}"
    and "length (take k xs @ drop (Suc k) xs) = length xs - 1"
proof -
  have dec: "xs = take k xs @ xs ! k # drop (Suc k) xs"
    using assms(1) by (rule id_take_nth_drop)
  then have d: "distinct (take k xs @ xs ! k # drop (Suc k) xs)"
    using assms(2) by simp
  then show "distinct (take k xs @ drop (Suc k) xs)" by simp
  have "set xs = set (take k xs @ xs ! k # drop (Suc k) xs)" using dec by simp
  then show "set (take k xs @ drop (Suc k) xs) = set xs - {xs ! k}"
    using d by auto
  show "length (take k xs @ drop (Suc k) xs) = length xs - 1"
    using assms(1) by simp
qed

lemma random_loop_spec:
  "unit_draws rnd \<Longrightarrow>
     pickCount - int i \<le> int (length pool) \<Longrightarrow> distinct pool \<Longrightarrow> distinct indices \<Longrightarrow>
     None \<notin> set indices \<Longrightarrow> set indices \<inter> Some ` set pool = {} \<Longrightarrow>
     length (random_loop rnd pickCount i pool indices) = length indices + nat (pickCount - int i) \<and>
     distinct (random_loop rnd pickCount i pool indices) \<and>
     None \<notin> set (random_loop rnd pickCount i pool indices) \<and>
     set (random_loop rnd pickCount i pool indices) \<subseteq> set indices \<union> Some ` set pool"
proof (induction rnd pickCount i pool indices rule: random_loop.induct)
  case (1 rnd pickCount i pool indices)
  show ?case
  proof (cases "int i < pickCount")
    case True
    define pick where "pick = math_floor (times_length (rnd i) (length pool))"
    define k where "k = nat pick"
    define pool' where "pool' = take k pool @ drop (Suc k) pool"
    define indices' where "indices' = indices @ [Some (pool ! k)]"
    have len: "0 < length pool" using True "1.prems"(2) by auto
    have pb: "0 \<le> pick \<and> pick < int (length pool)"
      unfolding pick_def using pick_in_pool[of "rnd i" "length pool"] len "1.prems"(1)
      by (simp add: unit_draws_def)
    then have kb: "k < length pool" unfolding k_def by linarith
    have sp: "splice1 pool pick = ([pool ! k], pool')"
      using pb by (simp add: splice1_in_range k_def pool'_def)
    have unfold: "random_loop rnd pickCount i pool indices =
                  random_loop rnd pickCount (Suc i) pool' indices'"
      using True sp by (simp add: random_loop_step pick_def[symmetric] elem0_def indices'_def)
    have p1: "pickCount - int (Suc i) \<le> int (length pool')"
      using remove_nth_props(3)[OF kb "1.prems"(3)] "1.prems"(2) len by (simp add: pool'_def)
    have p2: "distinct pool'"
      using remove_nth_props(1)[OF kb "1.prems"(3)] by (simp add: pool'_def)
    have setp: "set pool' = set pool - {pool ! k}"
      using remove_nth_props(2)[OF kb "1.prems"(3)] by (simp add: pool'_def)
    have inpool: "pool ! k \<in> set pool" using kb by simp
    have p3: "distinct indices'"
      using "1.prems"(4,6) inpool by (auto simp: indices'_def)
    have p4: "None \<notin> set indices'"
      using "1.prems"(5) by (simp add: indices'_def)
    have p5: "set indices' \<inter> Some ` set pool' = {}"
      using "1.prems"(6) setp by (auto simp: indices'_def)
    have IH: "length (random_loop rnd pickCount (Suc i) pool' indices') =
                length indices' + nat (pickCount - int (Suc i)) \<and>
              distinct (random_loop rnd pickCount (Suc i) pool' indices') \<and>
              None \<notin> set (random_loop rnd pickCount (Suc i) pool' indices') \<and>
              set (random_loop rnd pickCount (Suc i) pool' indices')
                \<subseteq> set indices' \<union> Some ` set pool'"
      using "1.IH"[OF True pick_def refl] sp "1.prems"(1) p1 p2 p3 p4 p5
      by (simp add: elem0_def indices'_def)
    have sub: "set indices' \<union> Some ` set pool' \<subseteq> set indices \<union> Some ` set pool"
      using setp inpool by (auto simp: indices'_def)
    have cnt: "length indices' + nat (pickCount - int (Suc i)) =
               length indices + nat (pickCount - int i)"
      using True by (simp add: indices'_def) 
    have "set (random_loop rnd pickCount (Suc i) pool' indices')
            \<subseteq> set indices \<union> Some ` set pool"
      using IH sub by (rule_tac subset_trans[of _ "set indices' \<union> Some ` set pool'"]) simp_all
    then show ?thesis using IH cnt unfold by simp
  next
    case False
    then show ?thesis using "1.prems" by (simp add: random_loop_stop)
  qed
qed

section \<open>Arithmetic of the strides\<close>

lemma int_le_div_iff:
  fixes d :: int
  assumes "0 < d"
  shows "m \<le> a div d \<longleftrightarrow> m * d \<le> a"
proof
  assume "m \<le> a div d"
  then have "m * d \<le> (a div d) * d" using assms by (simp add: mult_right_mono)
  also have "(a div d) * d \<le> a"
  proof -
    have "a = (a div d) * d + a mod d" by simp
    moreover have "0 \<le> a mod d" using assms by simp
    ultimately show ?thesis by linarith
  qed
  finally show "m * d \<le> a" .
next
  assume "m * d \<le> a"
  then have "(m * d) div d \<le> a div d" using assms by (rule zdiv_mono1)
  then show "m \<le> a div d" using assms by simp
qed

lemma stride_below:
  assumes "0 < step" "j < strides step idx availableCount"
  shows "idx + int j * step < availableCount"
proof -
  have "int j < (availableCount - idx + step - 1) div step"
    using assms(2) by (simp add: strides_def)
  then have "int j + 1 \<le> (availableCount - idx + step - 1) div step" by simp
  then have "(int j + 1) * step \<le> availableCount - idx + step - 1"
    using assms(1) by (simp only: int_le_div_iff)
  then show ?thesis by (simp add: algebra_simps)
qed

section \<open>Indices and the rows they select\<close>

lemma picked_items_append:
  "picked_items c (xs @ ys) = picked_items c xs @ picked_items c ys"
  by (induction xs) (simp_all split: option.splits)

lemma picked_items_prefix:
  "m \<le> length c \<Longrightarrow> picked_items c (map Some (map int [0..<m])) = take m c"
proof (induction m)
  case 0
  show ?case by simp
next
  case (Suc m)
  then have "at_index c (Some (int m)) = Some (c ! m)" by (simp add: at_index_def)
  then show ?case using Suc
    by (simp add: picked_items_append take_Suc_conv_app_nth)
qed

lemma store_picked_fold:
  "store_picked c is base = fold put_item (picked_items c is) base"
  by (induction "is" arbitrary: base) (simp_all split: option.splits)

lemma picked_items_all:
  "\<forall>i \<in> set is. at_index c i \<noteq> None \<Longrightarrow> length (picked_items c is) = length is"
  by (induction "is") (auto split: option.splits)

lemma array_from_set: "set (array_from len) = {k. 0 \<le> k \<and> k < len}"
proof -
  have "\<And>k. 0 \<le> k \<Longrightarrow> k < len \<Longrightarrow> k \<in> int ` {0..<nat len}"
  proof -
    fix k :: int assume "0 \<le> k" "k < len"
    then have "nat k \<in> {0..<nat len}" "k = int (nat k)" by simp_all
    then show "k \<in> int ` {0..<nat len}" by (rule_tac image_eqI)
  qed
  then show ?thesis by (auto simp: array_from_def)
qed

lemma array_from_distinct: "distinct (array_from len)"
  by (simp add: array_from_def distinct_map)

lemma array_from_length: "length (array_from len) = nat len"
  by (simp add: array_from_def)

lemma choose_indices_in_range:
  assumes "unit_draws rnd" "pickCount \<le> availableCount" "0 \<le> availableCount"
  shows "\<forall>i \<in> set (choose_indices strat rnd selNum pickCount availableCount).
           \<exists>k. i = Some k \<and> 0 \<le> k \<and> k < availableCount"
proof (cases strat)
  case First
  then show ?thesis using assms(2) by (auto simp: choose_indices_def array_from_set)
next
  case Random
  have "set (random_loop rnd pickCount 0 (array_from availableCount) [])
          \<subseteq> set [] \<union> Some ` set (array_from availableCount)"
    using random_loop_spec[of rnd pickCount 0 "array_from availableCount" "[]"] assms
    by (simp add: array_from_distinct array_from_length)
  then show ?thesis using Random by (auto simp: choose_indices_def array_from_set)
next
  case Every
  define step where "step = (case selNum of None \<Rightarrow> 1 | Some s \<Rightarrow> if s \<noteq> 0 \<and> s \<ge> 1 then s else (1::int))"
  have sp: "0 < step" by (simp add: step_def split: option.splits)
  show ?thesis
  proof (cases "step = 1")
    case True
    then show ?thesis using Every assms(2)
      by (auto simp: choose_indices_def step_def[symmetric] array_from_set)
  next
    case False
    have "choose_indices strat rnd selNum pickCount availableCount =
          map (\<lambda>j. Some (0 + int j * step))
            [0..<min (nat (pickCount - int (length ([]::int option list)))) (strides step 0 availableCount)]"
      using Every False every_loop_closed[OF sp, of pickCount availableCount "[]" 0]
      by (simp add: choose_indices_def step_def[symmetric])
    then show ?thesis using stride_below[OF sp, of _ 0 availableCount] sp by auto
  qed
qed

section \<open>Writing into the selection\<close>

lemma store_picked_override:
  "store_picked combined is base = base ++ store_picked combined is Map.empty"
proof (induction "is" arbitrary: base)
  case Nil
  show ?case by simp
next
  case (Cons i "is")
  show ?case
  proof (cases "at_index combined i")
    case None
    then show ?thesis using Cons[of base] by simp
  next
    case (Some item)
    have "store_picked combined (i # is) base =
          put_item item base ++ store_picked combined is Map.empty"
      using Some Cons[of "put_item item base"] by simp
    also have "put_item item base = base ++ put_item item Map.empty"
      by (simp add: put_item_def)
    also have "(base ++ put_item item Map.empty) ++ store_picked combined is Map.empty =
               base ++ (put_item item Map.empty ++ store_picked combined is Map.empty)"
      by simp
    also have "put_item item Map.empty ++ store_picked combined is Map.empty =
               store_picked combined (i # is) Map.empty"
      using Some Cons[of "put_item item Map.empty"] by simp
    finally show ?thesis .
  qed
qed

lemma key_inv_put: "key_inv m \<Longrightarrow> key_inv (put_item item m)"
  by (simp add: key_inv_def put_item_def toMeta_def)

lemma key_inv_store: "key_inv base \<Longrightarrow> key_inv (store_picked combined is base)"
proof (induction "is" arbitrary: base)
  case Nil
  then show ?case by simp
next
  case (Cons i "is")
  then show ?case by (cases "at_index combined i") (simp_all add: key_inv_put)
qed

lemma key_inv_empty: "key_inv Map.empty"
  by (simp add: key_inv_def)

section \<open>The gathered buffer\<close>

lemma gather_spec:
  "\<exists>q. page st \<le> q \<and> q \<le> max (page st) (totalPages st) \<and>
       gather api st = (rows st @ pages_data api (page st + 1) q, [page st + 1..q]) \<and>
       (\<forall>j. page st \<le> j \<and> j < q \<longrightarrow>
            int (length (rows st @ pages_data api (page st + 1) j)) < target_count st) \<and>
       (q < totalPages st \<longrightarrow>
            target_count st \<le> int (length (rows st @ pages_data api (page st + 1) q)))"
  using fetch_loop_spec[of "page st + 1" "totalPages st" api "target_count st" "rows st" "[]"]
  by (simp add: gather_def)

lemma pages_data_last:
  "p \<le> q \<Longrightarrow> pages_data api p q = pages_data api p (q - 1) @ fetchPageData api q"
  by (simp add: pages_data_def upto_rec2)

lemma fetched_of_apply:
  "snd (applyAutoSelect api rnd st) = (if target_count st \<le> 0 then [] else snd (gather api st))"
  by (simp add: applyAutoSelect_def Let_def)

lemma totalPages_pos: "1 \<le> totalPages st"
  by (simp add: totalPages_def)

lemma gather_buffer:
  "fst (gather api st) = rows st @ concat (map (fetchPageData api) (snd (gather api st)))"
  using gather_spec[of st api] by (auto simp: pages_data_def)

lemma concat_map_without:
  "f p = [] \<Longrightarrow> concat (map f xs) = concat (map f (filter (\<lambda>q. q \<noteq> p) xs))"
  by (induction xs) auto

lemma entry_of_toMeta: "entry_of item = (a_id item, toMeta item)"
  by (simp add: entry_of_def toMeta_def)

lemma fold_put_item_map_of:
  "fold put_item xs base = base ++ map_of (rev (map entry_of xs))"
proof (induction xs arbitrary: base)
  case Nil
  show ?case by simp
next
  case (Cons x xs)
  have "fold put_item (x # xs) base = put_item x base ++ map_of (rev (map entry_of xs))"
    using Cons[of "put_item x base"] by simp
  also have "put_item x base = base ++ map_of [entry_of x]"
    by (simp add: put_item_def entry_of_toMeta)
  also have "(base ++ map_of [entry_of x]) ++ map_of (rev (map entry_of xs)) =
             base ++ map_of (rev (map entry_of (x # xs)))"
    by (simp add: map_of_append del: map_of.simps)
  finally show ?case .
qed

lemma dom_map_of_entries: "dom (map_of (rev (map entry_of xs))) = a_id ` set xs"
  by (simp add: dom_map_of_conv_image_fst image_image entry_of_def)

lemma init_empty_when_absent_or_unparseable:
  "initSelectedMap parse None = JObject [] \<and>
   initSelectedMap parse (Some []) = JObject [] \<and>
   (parse s = SyntaxError \<longrightarrow> initSelectedMap parse (Some s) = JObject [])"
  by (simp add: initSelectedMap_def)

lemma init_keeps_parsed_value:
  "s \<noteq> [] \<Longrightarrow> parse s = Parsed v \<Longrightarrow> initSelectedMap parse (Some s) = v"
  by (simp add: initSelectedMap_def)

lemma unit_draws_of:
  "\<forall>d \<in> set ds. mant d < 2 ^ 53 \<and> - 1074 \<le> expo d \<and> below_one d \<Longrightarrow> unit_draws (draws_of ds)"
  by (simp add: unit_draws_def draws_of_def zero_draw_def below_one_def)

section \<open>Evaluating the scenarios\<close>

lemmas scenario_eval =
  mk_state_def mk_artwork_def two_per_page_def page2_fails_def target_count_def gather_def
  totalPages_def rowsPerPage_def fetch_loop_step fetch_loop_stop fetchPageData_def
  picked_indices_def choose_indices_def array_from_def every_loop_step every_loop_stop
  random_loop_step random_loop_stop splice1_def elem0_def at_index_def put_item_def toMeta_def
  new_entries_def applyAutoSelect_def Let_def upt_rec
  math_floor_def times_length_def round_nearest_even_def excess_bits_small excess_bits_large
  draws_of_def zero_draw_def draw_0_6_def draw_half_def draw_max_def

section \<open>Properties of the specification\<close>

text \<open>
  C7. With an absent target count or one that is not positive, the handler requests no
  page and leaves the selection as it was; it only hides the overlay.
\<close>

theorem no_op_for_nonpositive_count:
  assumes "case selectNumber st of None \<Rightarrow> True | Some n \<Rightarrow> n \<le> 0"
  shows "snd (applyAutoSelect api rnd st) = [] \<and>
         selectedMap (fst (applyAutoSelect api rnd st)) = selectedMap st \<and>
         fst (applyAutoSelect api rnd st) = st\<lparr>overlayVisible := False\<rparr>"
proof -
  have "target_count st \<le> 0"
    using assms by (simp add: target_count_def split: option.splits)
  then show ?thesis by (simp add: applyAutoSelect_def)
qed

theorem no_op_for_nonpositive_count_witness:
  "selectNumber (mk_state [mk_artwork 7] 1 36 None First True) = None \<and>
   snd (applyAutoSelect page2_fails (draws_of []) (mk_state [mk_artwork 7] 1 36 None First True)) = [] \<and>
   selectNumber (mk_state [mk_artwork 7] 1 36 (Some (- 2)) Random False) = Some (- 2) \<and>
   snd (applyAutoSelect page2_fails (draws_of []) (mk_state [mk_artwork 7] 1 36 (Some (- 2)) Random False)) = [] \<and>
   selectedMap (fst (applyAutoSelect page2_fails (draws_of [])
                       (mk_state [mk_artwork 7] 1 36 (Some (- 2)) Random False)))
     = selectedMap (mk_state [mk_artwork 7] 1 36 (Some (- 2)) Random False)"
  using no_op_for_nonpositive_count[of "mk_state [mk_artwork 7] 1 36 None First True" page2_fails "draws_of []"]
    no_op_for_nonpositive_count[of "mk_state [mk_artwork 7] 1 36 (Some (- 2)) Random False" page2_fails "draws_of []"]
  by (simp add: mk_state_def)

text \<open>
  C4. With \<open>addToExisting\<close> off, a bulk selection leaves exactly the newly picked
  entries; with it on, the result is the prior map overridden by the new entries: key
  \<open>k\<close> holds the new entry when there is one and the prior entry otherwise.
\<close>

theorem merge_replace_or_union:
  assumes "0 < target_count st"
  shows "selectedMap (fst (applyAutoSelect api rnd st)) k =
           (if addToExisting st
            then (case new_entries api rnd st k of
                    Some v \<Rightarrow> Some v
                  | None \<Rightarrow> selectedMap st k)
            else new_entries api rnd st k)"
proof -
  have "selectedMap (fst (applyAutoSelect api rnd st)) =
        store_picked (fst (gather api st)) (picked_indices api rnd st)
          (if addToExisting st then selectedMap st else Map.empty)"
    using assms by (simp add: applyAutoSelect_def Let_def)
  also have "\<dots> = (if addToExisting st then selectedMap st else Map.empty) ++ new_entries api rnd st"
    unfolding new_entries_def by (rule store_picked_override)
  finally show ?thesis
    by (simp add: map_add_def split: option.splits)
qed

theorem merge_replace_or_union_witness:
  "0 < target_count (with_selection [7 \<mapsto> toMeta (mk_artwork 7)]
         (mk_state [mk_artwork 1, mk_artwork 2] 1 2 (Some 1) First True)) \<and>
   selectedMap (fst (applyAutoSelect two_per_page (draws_of [])
      (with_selection [7 \<mapsto> toMeta (mk_artwork 7)]
         (mk_state [mk_artwork 1, mk_artwork 2] 1 2 (Some 1) First True)))) 7
     = Some (toMeta (mk_artwork 7)) \<and>
   selectedMap (fst (applyAutoSelect two_per_page (draws_of [])
      (with_selection [7 \<mapsto> toMeta (mk_artwork 7)]
         (mk_state [mk_artwork 1, mk_artwork 2] 1 2 (Some 1) First True)))) 1
     = Some (toMeta (mk_artwork 1)) \<and>
   selectedMap (fst (applyAutoSelect two_per_page (draws_of [])
      (with_selection [7 \<mapsto> toMeta (mk_artwork 7)]
         (mk_state [mk_artwork 1, mk_artwork 2] 1 2 (Some 1) First False)))) 7
     = None"
proof -
  let ?M = "[7 \<mapsto> toMeta (mk_artwork 7)]"
  let ?S = "with_selection ?M (mk_state [mk_artwork 1, mk_artwork 2] 1 2 (Some 1) First True)"
  let ?T = "with_selection ?M (mk_state [mk_artwork 1, mk_artwork 2] 1 2 (Some 1) First False)"
  have hS: "0 < target_count ?S" by (simp add: with_selection_def scenario_eval)
  have hT: "0 < target_count ?T" by (simp add: with_selection_def scenario_eval)
  have n7: "new_entries two_per_page (draws_of []) ?S 7 = None"
    by (simp add: with_selection_def scenario_eval)
  have n1: "new_entries two_per_page (draws_of []) ?S 1 = Some (toMeta (mk_artwork 1))"
    by (simp add: with_selection_def scenario_eval)
  have t7: "new_entries two_per_page (draws_of []) ?T 7 = None"
    by (simp add: with_selection_def scenario_eval)
  have aS: "addToExisting ?S" "selectedMap ?S 7 = Some (toMeta (mk_artwork 7))"
    by (simp_all add: with_selection_def mk_state_def)
  have aT: "\<not> addToExisting ?T"
    by (simp add: with_selection_def mk_state_def)
  have "selectedMap (fst (applyAutoSelect two_per_page (draws_of []) ?S)) 7 = Some (toMeta (mk_artwork 7))"
    using merge_replace_or_union[OF hS, of two_per_page "draws_of []" 7] n7 aS by simp
  moreover have "selectedMap (fst (applyAutoSelect two_per_page (draws_of []) ?S)) 1 = Some (toMeta (mk_artwork 1))"
    using merge_replace_or_union[OF hS, of two_per_page "draws_of []" 1] n1 aS by simp
  moreover have "selectedMap (fst (applyAutoSelect two_per_page (draws_of []) ?T)) 7 = None"
    using merge_replace_or_union[OF hT, of two_per_page "draws_of []" 7] t7 aT by simp
  ultimately show ?thesis using hS by simp
qed

text \<open>
  C9. Ticking or unticking a checkbox, removing an entry from the side panel, clearing,
  and bulk selection in either mode keep the invariant that every key of the selection
  is the identifier of the record stored under it.
\<close>

theorem selection_ops_keep_key_inv:
  assumes "key_inv (selectedMap st)"
  shows "key_inv (selectedMap (onCheckboxChange row checked st)) \<and>
         key_inv (selectedMap (deselectId i st)) \<and>
         key_inv (selectedMap (doClearSelections st)) \<and>
         key_inv (selectedMap (fst (applyAutoSelect api rnd st)))"
proof -
  have a: "key_inv (selectedMap (onCheckboxChange row checked st))"
    using assms
    by (auto simp: onCheckboxChange_def Let_def key_inv_def toMeta_def split: option.splits)
  have b: "key_inv (selectedMap (deselectId i st))"
    using assms by (auto simp: deselectId_def key_inv_def)
  have c: "key_inv (selectedMap (doClearSelections st))"
    by (simp add: doClearSelections_def key_inv_empty)
  have d: "key_inv (selectedMap (fst (applyAutoSelect api rnd st)))"
    using assms by (simp add: applyAutoSelect_def Let_def key_inv_store key_inv_empty)
  from a b c d show ?thesis by simp
qed

theorem selection_ops_keep_key_inv_witness:
  "key_inv (selectedMap (with_selection [7 \<mapsto> toMeta (mk_artwork 7)]
         (mk_state [mk_artwork 1, mk_artwork 2] 1 2 (Some 1) First True))) \<and>
   key_inv (selectedMap (onCheckboxChange (mk_artwork 2) (Some True)
      (with_selection [7 \<mapsto> toMeta (mk_artwork 7)]
         (mk_state [mk_artwork 1, mk_artwork 2] 1 2 (Some 1) First True)))) \<and>
   key_inv (selectedMap (fst (applyAutoSelect two_per_page (draws_of [])
      (with_selection [7 \<mapsto> toMeta (mk_artwork 7)]
         (mk_state [mk_artwork 1, mk_artwork 2] 1 2 (Some 1) First True)))))"
proof -
  let ?S = "with_selection [7 \<mapsto> toMeta (mk_artwork 7)]
         (mk_state [mk_artwork 1, mk_artwork 2] 1 2 (Some 1) First True)"
  have h: "key_inv (selectedMap ?S)"
    by (simp add: with_selection_def mk_state_def key_inv_def toMeta_def mk_artwork_def)
  from selection_ops_keep_key_inv[OF h, of "mk_artwork 2" "Some True" 0 two_per_page "draws_of []"] h
  show ?thesis by simp
qed

text \<open>
  C5. The accumulation loop ends, having requested the consecutive pages after the
  current one: at most \<open>totalPages - page\<close> of them (a number of pages, so none when
  the current page is the last or beyond), each one only while the buffer held fewer than
  the target count, and none at all when the rows of the current page suffice.
  \<open>totalPages\<close> is at least 1.
\<close>

theorem fetch_loop_bounded:
  "snd (applyAutoSelect api rnd st) =
     [page st + 1..page st + int (length (snd (applyAutoSelect api rnd st)))] \<and>
   length (snd (applyAutoSelect api rnd st)) \<le> nat (totalPages st - page st) \<and>
   (\<forall>p \<in> set (snd (applyAutoSelect api rnd st)).
      int (length (rows st @ pages_data api (page st + 1) (p - 1))) < target_count st) \<and>
   (target_count st \<le> int (length (rows st)) \<longrightarrow> snd (applyAutoSelect api rnd st) = []) \<and>
   1 \<le> totalPages st"
proof (cases "target_count st \<le> 0")
  case True
  then show ?thesis by (simp add: fetched_of_apply totalPages_pos)
next
  case False
  obtain q where q0: "page st \<le> q" and qb: "q \<le> max (page st) (totalPages st)"
    and g: "gather api st = (rows st @ pages_data api (page st + 1) q, [page st + 1..q])"
    and below: "\<forall>j. page st \<le> j \<and> j < q \<longrightarrow>
            int (length (rows st @ pages_data api (page st + 1) j)) < target_count st"
    using gather_spec[of st api] by blast
  have f: "snd (applyAutoSelect api rnd st) = [page st + 1..q]"
    using False g by (simp add: fetched_of_apply)
  have len: "page st + int (length [page st + 1..q]) = q" using q0 by simp
  have a: "[page st + 1..q] = [page st + 1..page st + int (length [page st + 1..q])]"
    by (simp only: len)
  have b: "length [page st + 1..q] \<le> nat (totalPages st - page st)"
    using q0 qb by (auto simp: nat_le_iff)
  have c: "\<forall>p \<in> set [page st + 1..q].
      int (length (rows st @ pages_data api (page st + 1) (p - 1))) < target_count st"
    using below by simp
  have d: "target_count st \<le> int (length (rows st)) \<longrightarrow> [page st + 1..q] = []"
  proof
    assume full: "target_count st \<le> int (length (rows st))"
    show "[page st + 1..q] = []"
    proof (rule ccontr)
      assume "[page st + 1..q] \<noteq> []"
      then have "page st < q" by simp
      then have "int (length (rows st @ pages_data api (page st + 1) (page st))) < target_count st"
        using below by simp
      then show False using full by (simp add: pages_data_none)
    qed
  qed
  show ?thesis
    unfolding f using a b c d totalPages_pos[of st] by blast
qed

theorem fetch_loop_bounded_witness:
  "target_count (mk_state (map mk_artwork [1, 2, 3, 4, 5, 6, 7, 8, 9, 10]) 1 10 (Some 5) First True)
     \<le> int (length (rows (mk_state (map mk_artwork [1, 2, 3, 4, 5, 6, 7, 8, 9, 10]) 1 10 (Some 5) First True))) \<and>
   totalPages (mk_state (map mk_artwork [1, 2, 3, 4, 5, 6, 7, 8, 9, 10]) 1 10 (Some 5) First True) = 1 \<and>
   snd (applyAutoSelect two_per_page (draws_of [])
          (mk_state (map mk_artwork [1, 2, 3, 4, 5, 6, 7, 8, 9, 10]) 1 10 (Some 5) First True)) = [] \<and>
   picked_indices two_per_page (draws_of [])
          (mk_state (map mk_artwork [1, 2, 3, 4, 5, 6, 7, 8, 9, 10]) 1 10 (Some 5) First True)
     = [Some 0, Some 1, Some 2, Some 3, Some 4] \<and>
   snd (applyAutoSelect two_per_page (draws_of [])
          (mk_state [mk_artwork 1, mk_artwork 2] 1 36 (Some 5) First True)) = [2, 3] \<and>
   int (length (rows (mk_state [mk_artwork 1, mk_artwork 2] 1 36 (Some 5) First True) @
                pages_data two_per_page
                  (page (mk_state [mk_artwork 1, mk_artwork 2] 1 36 (Some 5) First True) + 1) (3 - 1)))
     < target_count (mk_state [mk_artwork 1, mk_artwork 2] 1 36 (Some 5) First True)"
proof -
  let ?S = "mk_state (map mk_artwork [1, 2, 3, 4, 5, 6, 7, 8, 9, 10]) 1 10 (Some 5) First True"
  let ?T = "mk_state [mk_artwork 1, mk_artwork 2] 1 36 (Some 5) First True"
  have h: "target_count ?S \<le> int (length (rows ?S))"
    by (simp add: scenario_eval)
  have tp: "totalPages ?S = 1"
    by (simp add: scenario_eval)
  have ix: "picked_indices two_per_page (draws_of []) ?S = [Some 0, Some 1, Some 2, Some 3, Some 4]"
    by (simp add: scenario_eval)
  have two: "snd (applyAutoSelect two_per_page (draws_of []) ?T) = [2, 3]"
    by (simp add: scenario_eval)
  then have mem: "3 \<in> set (snd (applyAutoSelect two_per_page (draws_of []) ?T))" by simp
  from fetch_loop_bounded[of two_per_page "draws_of []" ?S] h
  have none: "snd (applyAutoSelect two_per_page (draws_of []) ?S) = []" by blast
  from fetch_loop_bounded[of two_per_page "draws_of []" ?T] mem
  have short: "int (length (rows ?T @ pages_data two_per_page (page ?T + 1) (3 - 1))) < target_count ?T"
    by blast
  show ?thesis using h tp ix two none short by simp
qed

text \<open>
  C6. A page whose request is rejected adds no item to the buffer: \<open>fetchPageData\<close>
  returns the empty array for it, the loop goes from that page to the next one with the
  buffer it had, and the buffer of the handler is the current rows followed by the items
  of the requested pages other than the failed one. The loop does not stop there: when
  such a page was requested and it is not the last page, the very next request is for
  the page after it.
\<close>

theorem failed_fetch_contributes_nothing:
  assumes "api p = Rejected"
  shows "fetchPageData api p = [] \<and>
         (int (length combined) < n \<and> p \<le> tp \<longrightarrow>
            fetch_loop api n tp combined p fetched =
              fetch_loop api n tp combined (p + 1) (fetched @ [p])) \<and>
         fst (gather api st) =
           rows st @ concat (map (fetchPageData api)
                               (filter (\<lambda>q. q \<noteq> p) (snd (gather api st)))) \<and>
         (p \<in> set (snd (applyAutoSelect api rnd st)) \<and> p < totalPages st \<longrightarrow>
            (\<exists>i. Suc i < length (snd (applyAutoSelect api rnd st)) \<and>
                 snd (applyAutoSelect api rnd st) ! i = p \<and>
                 snd (applyAutoSelect api rnd st) ! Suc i = p + 1))"
proof -
  have z: "fetchPageData api p = []" using assms by (simp add: fetchPageData_def)
  have step: "int (length combined) < n \<and> p \<le> tp \<longrightarrow>
            fetch_loop api n tp combined p fetched =
              fetch_loop api n tp combined (p + 1) (fetched @ [p])"
    using z by (simp add: fetch_loop_step)
  have buf: "fst (gather api st) =
           rows st @ concat (map (fetchPageData api)
                               (filter (\<lambda>q. q \<noteq> p) (snd (gather api st))))"
    using gather_buffer[of api st] concat_map_without[of "fetchPageData api" p "snd (gather api st)"] z
    by simp
  have nxt: "p \<in> set (snd (applyAutoSelect api rnd st)) \<and> p < totalPages st \<longrightarrow>
            (\<exists>i. Suc i < length (snd (applyAutoSelect api rnd st)) \<and>
                 snd (applyAutoSelect api rnd st) ! i = p \<and>
                 snd (applyAutoSelect api rnd st) ! Suc i = p + 1)"
  proof (cases "target_count st \<le> 0")
    case True
    then show ?thesis by (simp add: fetched_of_apply)
  next
    case False
    obtain q where q0: "page st \<le> q"
      and g: "gather api st = (rows st @ pages_data api (page st + 1) q, [page st + 1..q])"
      and below: "\<forall>j. page st \<le> j \<and> j < q \<longrightarrow>
            int (length (rows st @ pages_data api (page st + 1) j)) < target_count st"
      and full: "q < totalPages st \<longrightarrow>
            target_count st \<le> int (length (rows st @ pages_data api (page st + 1) q))"
      using gather_spec[of st api] by blast
    have f: "snd (applyAutoSelect api rnd st) = [page st + 1..q]"
      using False g by (simp add: fetched_of_apply)
    have same: "p \<in> set [page st + 1..q] \<longrightarrow>
                pages_data api (page st + 1) p = pages_data api (page st + 1) (p - 1)"
      using z by (simp add: pages_data_last)
    have "p \<in> set [page st + 1..q] \<and> p < totalPages st \<longrightarrow>
            (\<exists>i. Suc i < length [page st + 1..q] \<and> [page st + 1..q] ! i = p \<and>
                 [page st + 1..q] ! Suc i = p + 1)"
    proof
      assume h: "p \<in> set [page st + 1..q] \<and> p < totalPages st"
      then have pr: "page st + 1 \<le> p" "p \<le> q" by simp_all
      have "p \<noteq> q"
      proof
        assume e: "p = q"
        then have "target_count st \<le> int (length (rows st @ pages_data api (page st + 1) p))"
          using full h by simp
        moreover have "int (length (rows st @ pages_data api (page st + 1) (p - 1))) < target_count st"
          using below pr e by simp
        ultimately show False using same h by simp
      qed
      then have lt: "p < q" using pr by simp
      define i where "i = nat (p - (page st + 1))"
      have i1: "page st + 1 + int i = p" using pr by (simp add: i_def)
      have "Suc i < length [page st + 1..q]" using lt pr by (simp add: i_def)
      moreover have "[page st + 1..q] ! i = p" using i1 pr by simp
      moreover have "[page st + 1..q] ! Suc i = p + 1" using i1 lt by simp
      ultimately show "\<exists>i. Suc i < length [page st + 1..q] \<and> [page st + 1..q] ! i = p \<and>
                 [page st + 1..q] ! Suc i = p + 1" by blast
    qed
    then show ?thesis unfolding f .
  qed
  from z step buf nxt show ?thesis by blast
qed

theorem failed_fetch_contributes_nothing_witness:
  "page2_fails 2 = Rejected \<and>
   2 \<in> set (snd (applyAutoSelect page2_fails (draws_of [])
          (mk_state [mk_artwork 1, mk_artwork 2] 1 36 (Some 3) First True))) \<and>
   2 < totalPages (mk_state [mk_artwork 1, mk_artwork 2] 1 36 (Some 3) First True) \<and>
   snd (applyAutoSelect page2_fails (draws_of [])
          (mk_state [mk_artwork 1, mk_artwork 2] 1 36 (Some 3) First True)) = [2, 3] \<and>
   fst (gather page2_fails (mk_state [mk_artwork 1, mk_artwork 2] 1 36 (Some 3) First True))
     = [mk_artwork 1, mk_artwork 2, mk_artwork 30, mk_artwork 31] \<and>
   fetchPageData page2_fails 2 = [] \<and>
   (\<exists>i. Suc i < length (snd (applyAutoSelect page2_fails (draws_of [])
                   (mk_state [mk_artwork 1, mk_artwork 2] 1 36 (Some 3) First True))) \<and>
        snd (applyAutoSelect page2_fails (draws_of [])
               (mk_state [mk_artwork 1, mk_artwork 2] 1 36 (Some 3) First True)) ! i = 2 \<and>
        snd (applyAutoSelect page2_fails (draws_of [])
               (mk_state [mk_artwork 1, mk_artwork 2] 1 36 (Some 3) First True)) ! Suc i = 2 + 1)"
proof -
  let ?S = "mk_state [mk_artwork 1, mk_artwork 2] 1 36 (Some 3) First True"
  have r: "page2_fails 2 = Rejected" by (simp add: page2_fails_def)
  have f: "snd (applyAutoSelect page2_fails (draws_of []) ?S) = [2, 3]"
    by (simp add: scenario_eval)
  then have mem: "2 \<in> set (snd (applyAutoSelect page2_fails (draws_of []) ?S))" by simp
  have tp: "2 < totalPages ?S" by (simp add: scenario_eval)
  have lg: "snd (gather page2_fails ?S) = [2, 3]" by (simp add: scenario_eval)
  have rw: "rows ?S = [mk_artwork 1, mk_artwork 2]" by (simp add: mk_state_def)
  have p3: "fetchPageData page2_fails 3 = [mk_artwork 30, mk_artwork 31]"
    by (simp add: fetchPageData_def page2_fails_def two_per_page_def)
  note t = failed_fetch_contributes_nothing[of page2_fails 2 _ _ _ _ ?S "draws_of []"]
  from t r have z: "fetchPageData page2_fails 2 = []" by blast
  from t r have "fst (gather page2_fails ?S) =
      rows ?S @ concat (map (fetchPageData page2_fails)
                          (filter (\<lambda>q. q \<noteq> 2) (snd (gather page2_fails ?S))))"
    by blast
  then have b: "fst (gather page2_fails ?S) = [mk_artwork 1, mk_artwork 2, mk_artwork 30, mk_artwork 31]"
    unfolding lg rw by (simp add: p3)
  from t r mem tp
  have nx: "\<exists>i. Suc i < length (snd (applyAutoSelect page2_fails (draws_of []) ?S)) \<and>
        snd (applyAutoSelect page2_fails (draws_of []) ?S) ! i = 2 \<and>
        snd (applyAutoSelect page2_fails (draws_of []) ?S) ! Suc i = 2 + 1"
    by blast
  show ?thesis using r mem tp f b z nx by blast
qed

text \<open>
  C1, as the code has it. For the every-Nth strategy with \<open>N > 1\<close> and at least \<open>N\<close>
  rows in the buffer, the picked indices are \<open>0, N, 2N, ...\<close> as long as they lie below
  the number of rows and fewer than \<open>N\<close> are picked: the \<open>k\<close>-th is \<open>k * N\<close>, and there
  are \<open>min(N, ceil(available / N))\<close> of them. They are \<open>N\<close> exactly when more than
  \<open>(N - 1) * N\<close> rows are available.
\<close>

theorem every_nth_indices:
  assumes "strategy st = Every" "selectNumber st = Some n" "1 < n"
    "n \<le> int (length (fst (gather api st)))"
  shows "picked_indices api rnd st =
           map (\<lambda>k. Some (int k * n))
             [0..<min (nat n) (nat ((int (length (fst (gather api st))) + n - 1) div n))] \<and>
         (length (picked_indices api rnd st) = nat n \<longleftrightarrow>
            (n - 1) * n < int (length (fst (gather api st))))"
proof -
  define av where "av = int (length (fst (gather api st)))"
  have n0: "0 < n" using assms(3) by simp
  have tc: "target_count st = n" using assms(2) by (simp add: target_count_def)
  have pc: "min (target_count st) av = n" using tc assms(4) by (simp add: av_def)
  have "picked_indices api rnd st = every_loop n n av [] 0"
    using assms(1,2,3) pc by (simp add: picked_indices_def Let_def choose_indices_def av_def)
  also have "\<dots> = [] @ map (\<lambda>j. Some (0 + int j * n))
       [0..<min (nat (n - int (length ([]::int option list)))) (strides n 0 av)]"
    using n0 by (rule every_loop_closed)
  finally have ix: "picked_indices api rnd st =
       map (\<lambda>k. Some (int k * n)) [0..<min (nat n) (nat ((av + n - 1) div n))]"
    by (simp add: strides_def)
  have "min (nat n) (nat ((av + n - 1) div n)) = nat n \<longleftrightarrow> n \<le> (av + n - 1) div n"
    using n0 by auto
  also have "\<dots> \<longleftrightarrow> n * n \<le> av + n - 1" using n0 by (rule int_le_div_iff)
  also have "\<dots> \<longleftrightarrow> (n - 1) * n < av" by (auto simp: algebra_simps)
  finally have "length (picked_indices api rnd st) = nat n \<longleftrightarrow> (n - 1) * n < av"
    using ix by simp
  then show ?thesis using ix unfolding av_def by simp
qed

theorem every_nth_indices_witness:
  "strategy (mk_state [mk_artwork 1, mk_artwork 2] 1 36 (Some 3) Every False) = Every \<and>
   selectNumber (mk_state [mk_artwork 1, mk_artwork 2] 1 36 (Some 3) Every False) = Some 3 \<and>
   (1::int) < 3 \<and>
   3 \<le> int (length (fst (gather two_per_page (mk_state [mk_artwork 1, mk_artwork 2] 1 36 (Some 3) Every False)))) \<and>
   picked_indices two_per_page (draws_of []) (mk_state [mk_artwork 1, mk_artwork 2] 1 36 (Some 3) Every False)
     = [Some 0, Some 3]"
proof -
  let ?S = "mk_state [mk_artwork 1, mk_artwork 2] 1 36 (Some 3) Every False"
  have s: "strategy ?S = Every" and n: "selectNumber ?S = Some 3" by (simp_all add: mk_state_def)
  have g: "int (length (fst (gather two_per_page ?S))) = 4" by (simp add: scenario_eval)
  have a: "3 \<le> int (length (fst (gather two_per_page ?S)))" using g by simp
  have l: "(1::int) < 3" by simp
  from every_nth_indices[OF s n l a, of "draws_of []"]
  have "picked_indices two_per_page (draws_of []) ?S =
          map (\<lambda>k. Some (int k * 3))
            [0..<min (nat 3) (nat ((int (length (fst (gather two_per_page ?S))) + 3 - 1) div 3))]"
    by blast
  then have "picked_indices two_per_page (draws_of []) ?S = [Some 0, Some 3]"
    unfolding g by (simp add: upt_rec)
  then show ?thesis using s n a by simp
qed

text \<open>
  C1, as stated, asks for \<open>min(N, available)\<close> indices. With two rows and \<open>N = 2\<close> the
  walk stops at the end of the buffer after index 0.
\<close>

theorem every_nth_exactly_n_counterexample:
  "strategy (mk_state [mk_artwork 1, mk_artwork 2] 1 2 (Some 2) Every False) = Every \<and>
   selectNumber (mk_state [mk_artwork 1, mk_artwork 2] 1 2 (Some 2) Every False) = Some 2 \<and>
   int (length (fst (gather two_per_page (mk_state [mk_artwork 1, mk_artwork 2] 1 2 (Some 2) Every False)))) = 2 \<and>
   picked_indices two_per_page (draws_of []) (mk_state [mk_artwork 1, mk_artwork 2] 1 2 (Some 2) Every False)
     = [Some 0] \<and>
   length (picked_indices two_per_page (draws_of []) (mk_state [mk_artwork 1, mk_artwork 2] 1 2 (Some 2) Every False))
     \<noteq> nat (min 2 (int (length (fst (gather two_per_page
                 (mk_state [mk_artwork 1, mk_artwork 2] 1 2 (Some 2) Every False))))))"
  by (simp add: scenario_eval)

text \<open>
  C2. For the first-N strategy and a positive target count, the rows picked are the
  first \<open>min(N, available)\<close> rows of the buffer, and the buffer is the current page's
  rows followed by the rows of the requested pages in request order. The selection that
  the handler leaves is the base map (the prior selection, or the empty map in replace
  mode) overridden by the entries of exactly these rows, a later row winning over an
  earlier one with the same identifier; so its keys are those of the base together with
  the identifiers of these rows.
\<close>

theorem first_picks_buffer_prefix:
  assumes "strategy st = First" "0 < target_count st"
  shows "picked_indices api rnd st =
           map (\<lambda>k. Some (int k))
             [0..<nat (min (target_count st) (int (length (fst (gather api st)))))] \<and>
         fst (gather api st) =
           rows st @ concat (map (fetchPageData api) (snd (applyAutoSelect api rnd st))) \<and>
         selectedMap (fst (applyAutoSelect api rnd st)) =
           (if addToExisting st then selectedMap st else Map.empty) ++
           map_of (rev (map entry_of
             (take (nat (min (target_count st) (int (length (fst (gather api st))))))
                (fst (gather api st))))) \<and>
         dom (selectedMap (fst (applyAutoSelect api rnd st))) =
           (if addToExisting st then dom (selectedMap st) else {}) \<union>
           a_id ` set (take (nat (min (target_count st) (int (length (fst (gather api st))))))
                        (fst (gather api st)))"
proof -
  define c where "c = fst (gather api st)"
  define m where "m = nat (min (target_count st) (int (length c)))"
  define base where "base = (if addToExisting st then selectedMap st else Map.empty)"
  have mle: "m \<le> length c" by (simp add: m_def)
  have ix: "picked_indices api rnd st = map (\<lambda>k. Some (int k)) [0..<m]"
    using assms(1)
    by (simp add: picked_indices_def Let_def choose_indices_def array_from_def c_def m_def comp_def)
  have items: "picked_items c (picked_indices api rnd st) = take m c"
    using ix mle picked_items_prefix[of m c] by (simp add: comp_def)
  have b: "c = rows st @ concat (map (fetchPageData api) (snd (applyAutoSelect api rnd st)))"
    using assms(2) gather_buffer[of api st] by (simp add: fetched_of_apply c_def)
  have "selectedMap (fst (applyAutoSelect api rnd st)) =
        store_picked c (picked_indices api rnd st) base"
    using assms(2) by (simp add: applyAutoSelect_def Let_def c_def base_def)
  then have d: "selectedMap (fst (applyAutoSelect api rnd st)) =
        base ++ map_of (rev (map entry_of (take m c)))"
    using items by (simp add: store_picked_fold fold_put_item_map_of)
  have e: "dom (selectedMap (fst (applyAutoSelect api rnd st))) = dom base \<union> a_id ` set (take m c)"
    unfolding d by (simp add: dom_map_of_entries Un_commute)
  have db: "dom base = (if addToExisting st then dom (selectedMap st) else {})"
    by (simp add: base_def)
  from ix b d e show ?thesis unfolding db[symmetric] unfolding m_def c_def base_def by blast
qed

theorem first_picks_buffer_prefix_witness:
  "strategy (mk_state [mk_artwork 1, mk_artwork 2] 1 36 (Some 3) First False) = First \<and>
   0 < target_count (mk_state [mk_artwork 1, mk_artwork 2] 1 36 (Some 3) First False) \<and>
   fst (gather two_per_page (mk_state [mk_artwork 1, mk_artwork 2] 1 36 (Some 3) First False))
     = [mk_artwork 1, mk_artwork 2, mk_artwork 20, mk_artwork 21] \<and>
   dom (selectedMap (fst (applyAutoSelect two_per_page (draws_of [])
          (mk_state [mk_artwork 1, mk_artwork 2] 1 36 (Some 3) First False)))) = {1, 2, 20} \<and>
   selectedMap (fst (applyAutoSelect two_per_page (draws_of [])
          (mk_state [mk_artwork 1, mk_artwork 2] 1 36 (Some 3) First False))) 20
     = Some \<lparr>m_id = 20, m_title = Some ''untitled'', m_artist_display = None\<rparr> \<and>
   selectedMap (fst (applyAutoSelect two_per_page (draws_of [])
          (mk_state [mk_artwork 1, mk_artwork 2] 1 36 (Some 3) First False))) 1
     = Some \<lparr>m_id = 1, m_title = Some ''untitled'', m_artist_display = None\<rparr> \<and>
   selectedMap (fst (applyAutoSelect two_per_page (draws_of [])
          (mk_state [mk_artwork 1, mk_artwork 2] 1 36 (Some 3) First False))) 21 = None"
proof -
  let ?S = "mk_state [mk_artwork 1, mk_artwork 2] 1 36 (Some 3) First False"
  have s: "strategy ?S = First" by (simp add: mk_state_def)
  have h: "0 < target_count ?S" by (simp add: scenario_eval)
  have n: "target_count ?S = 3" by (simp add: scenario_eval)
  have a: "\<not> addToExisting ?S" by (simp add: mk_state_def)
  have g: "fst (gather two_per_page ?S) = [mk_artwork 1, mk_artwork 2, mk_artwork 20, mk_artwork 21]"
    by (simp add: scenario_eval)
  note t = first_picks_buffer_prefix[OF s h, of two_per_page "draws_of []"]
  from t have "dom (selectedMap (fst (applyAutoSelect two_per_page (draws_of []) ?S))) =
      (if addToExisting ?S then dom (selectedMap ?S) else {}) \<union>
      a_id ` set (take (nat (min (target_count ?S) (int (length (fst (gather two_per_page ?S))))))
                   (fst (gather two_per_page ?S)))"
    by blast
  then have d: "dom (selectedMap (fst (applyAutoSelect two_per_page (draws_of []) ?S))) = {1, 2, 20}"
    unfolding g n using a by (auto simp: mk_artwork_def)
  from t have "selectedMap (fst (applyAutoSelect two_per_page (draws_of []) ?S)) =
      (if addToExisting ?S then selectedMap ?S else Map.empty) ++
      map_of (rev (map entry_of
        (take (nat (min (target_count ?S) (int (length (fst (gather two_per_page ?S))))))
           (fst (gather two_per_page ?S)))))"
    by blast
  then have v: "selectedMap (fst (applyAutoSelect two_per_page (draws_of []) ?S)) 20
      = Some \<lparr>m_id = 20, m_title = Some ''untitled'', m_artist_display = None\<rparr>"
    unfolding g n using a by (simp add: mk_artwork_def entry_of_def)
  have w1: "selectedMap (fst (applyAutoSelect two_per_page (draws_of []) ?S)) 1
      = Some \<lparr>m_id = 1, m_title = Some ''untitled'', m_artist_display = None\<rparr>"
    by (simp add: scenario_eval)
  have w21: "selectedMap (fst (applyAutoSelect two_per_page (draws_of []) ?S)) 21 = None"
    by (simp add: scenario_eval)
  show ?thesis using s h g d v w1 w21 by simp
qed

text \<open>
  C3. For the random strategy, a positive target count and any draws of
  \<open>Math.random()\<close> that are doubles in \<open>[0, 1)\<close>, with the product rounded as the
  machine rounds it, the picked indices are \<open>min(N, available)\<close> in number, pairwise
  distinct, and each is a defined index in \<open>[0, available)\<close>. The sampling is without
  replacement by removal from the pool: one turn of the loop takes the element at the
  drawn position, which lies inside the pool, out of the pool and appends it to the
  result, the rest of the pool keeping its order.
\<close>

theorem random_picks_distinct_in_range:
  assumes "unit_draws rnd" "strategy st = Random" "0 < target_count st"
  shows "length (picked_indices api rnd st) =
           nat (min (target_count st) (int (length (fst (gather api st))))) \<and>
         distinct (picked_indices api rnd st) \<and>
         (\<forall>i \<in> set (picked_indices api rnd st).
            \<exists>k. i = Some k \<and> 0 \<le> k \<and> k < int (length (fst (gather api st)))) \<and>
         (int j < pickCount \<and> pool \<noteq> [] \<longrightarrow>
            nat (math_floor (times_length (rnd j) (length pool))) < length pool \<and>
            random_loop rnd pickCount j pool indices =
              random_loop rnd pickCount (Suc j)
                (take (nat (math_floor (times_length (rnd j) (length pool)))) pool @
                 drop (Suc (nat (math_floor (times_length (rnd j) (length pool))))) pool)
                (indices @ [Some (pool ! nat (math_floor (times_length (rnd j) (length pool))))]))"
proof -
  define av where "av = int (length (fst (gather api st)))"
  define pc where "pc = min (target_count st) av"
  have ix: "picked_indices api rnd st = random_loop rnd pc 0 (array_from av) []"
    using assms(2) by (simp add: picked_indices_def Let_def choose_indices_def av_def pc_def)
  have pre: "pc - int 0 \<le> int (length (array_from av))"
    by (simp add: array_from_length pc_def av_def)
  have spec: "length (random_loop rnd pc 0 (array_from av) []) = length ([]::int option list) + nat (pc - int 0) \<and>
     distinct (random_loop rnd pc 0 (array_from av) []) \<and>
     None \<notin> set (random_loop rnd pc 0 (array_from av) []) \<and>
     set (random_loop rnd pc 0 (array_from av) []) \<subseteq> set [] \<union> Some ` set (array_from av)"
    using assms(1) pre
    by (intro random_loop_spec) (simp_all add: array_from_distinct)
  have rng: "\<forall>i \<in> set (random_loop rnd pc 0 (array_from av) []). \<exists>k. i = Some k \<and> 0 \<le> k \<and> k < av"
    using spec by (auto simp: array_from_set)
  have turn: "int j < pickCount \<and> pool \<noteq> [] \<longrightarrow>
            nat (math_floor (times_length (rnd j) (length pool))) < length pool \<and>
            random_loop rnd pickCount j pool indices =
              random_loop rnd pickCount (Suc j)
                (take (nat (math_floor (times_length (rnd j) (length pool)))) pool @
                 drop (Suc (nat (math_floor (times_length (rnd j) (length pool))))) pool)
                (indices @ [Some (pool ! nat (math_floor (times_length (rnd j) (length pool))))])"
  proof
    assume h: "int j < pickCount \<and> pool \<noteq> []"
    define pick where "pick = math_floor (times_length (rnd j) (length pool))"
    have pb: "0 \<le> pick \<and> pick < int (length pool)"
      unfolding pick_def using pick_in_pool[of "rnd j" "length pool"] h assms(1)
      by (simp add: unit_draws_def)
    then have kb: "nat pick < length pool" by linarith
    have "random_loop rnd pickCount j pool indices =
          random_loop rnd pickCount (Suc j)
            (take (nat pick) pool @ drop (Suc (nat pick)) pool) (indices @ [Some (pool ! nat pick)])"
      using h pb by (simp add: random_loop_step pick_def[symmetric] splice1_in_range elem0_def)
    then show "nat (math_floor (times_length (rnd j) (length pool))) < length pool \<and>
            random_loop rnd pickCount j pool indices =
              random_loop rnd pickCount (Suc j)
                (take (nat (math_floor (times_length (rnd j) (length pool)))) pool @
                 drop (Suc (nat (math_floor (times_length (rnd j) (length pool))))) pool)
                (indices @ [Some (pool ! nat (math_floor (times_length (rnd j) (length pool))))])"
      using kb unfolding pick_def by simp
  qed
  from spec rng turn show ?thesis unfolding ix pc_def av_def by simp
qed

theorem random_picks_distinct_in_range_witness:
  "unit_draws (draws_of [draw_0_6, draw_half, zero_draw, draw_max]) \<and>
   strategy (mk_state [mk_artwork 1] 1 36 (Some 4) Random False) = Random \<and>
   0 < target_count (mk_state [mk_artwork 1] 1 36 (Some 4) Random False) \<and>
   int (length (fst (gather two_per_page (mk_state [mk_artwork 1] 1 36 (Some 4) Random False)))) = 5 \<and>
   math_floor (times_length draw_0_6 5) = 3 \<and>
   picked_indices two_per_page (draws_of [draw_0_6, draw_half, zero_draw, draw_max])
     (mk_state [mk_artwork 1] 1 36 (Some 4) Random False)
     = [Some 3, Some 2, Some 0, Some 4] \<and>
   distinct (picked_indices two_per_page (draws_of [draw_0_6, draw_half, zero_draw, draw_max])
               (mk_state [mk_artwork 1] 1 36 (Some 4) Random False)) \<and>
   random_loop (draws_of [draw_0_6, draw_half, zero_draw, draw_max]) 4 0 [0, 1, 2, 3, 4] []
     = random_loop (draws_of [draw_0_6, draw_half, zero_draw, draw_max]) 4 (Suc 0) [0, 1, 2, 4] [Some 3]"
proof -
  let ?S = "mk_state [mk_artwork 1] 1 36 (Some 4) Random False"
  let ?R = "draws_of [draw_0_6, draw_half, zero_draw, draw_max]"
  have u: "unit_draws ?R"
    by (rule unit_draws_of)
      (simp add: draw_0_6_def draw_half_def draw_max_def zero_draw_def below_one_def)
  have s: "strategy ?S = Random" by (simp add: mk_state_def)
  have h: "0 < target_count ?S" by (simp add: scenario_eval)
  have g: "int (length (fst (gather two_per_page ?S))) = 5" by (simp add: scenario_eval)
  have f: "math_floor (times_length draw_0_6 5) = 3" by (simp add: scenario_eval)
  have e: "picked_indices two_per_page ?R ?S = [Some 3, Some 2, Some 0, Some 4]"
    by (simp add: scenario_eval)
  have r0: "?R 0 = draw_0_6" by (simp add: draws_of_def)
  note t = random_picks_distinct_in_range[OF u s h, of two_per_page 0 4 "[0, 1, 2, 3, 4]" "[]"]
  from t have d: "distinct (picked_indices two_per_page ?R ?S)" by blast
  have pre: "int 0 < 4 \<and> [0, 1, 2, 3, 4 :: int] \<noteq> []" by simp
  from t pre
  have "random_loop ?R 4 0 [0, 1, 2, 3, 4] [] =
          random_loop ?R 4 (Suc 0)
            (take (nat (math_floor (times_length (?R 0) (length [0, 1, 2, 3, 4 :: int])))) [0, 1, 2, 3, 4] @
             drop (Suc (nat (math_floor (times_length (?R 0) (length [0, 1, 2, 3, 4 :: int]))))) [0, 1, 2, 3, 4])
            ([] @ [Some ([0, 1, 2, 3, 4] ! nat (math_floor (times_length (?R 0) (length [0, 1, 2, 3, 4 :: int]))))])"
    by blast
  moreover have "math_floor (times_length draw_0_6 (length [0, 1, 2, 3, 4 :: int])) = 3"
    by (simp add: scenario_eval)
  ultimately have turn: "random_loop ?R 4 0 [0, 1, 2, 3, 4] [] = random_loop ?R 4 (Suc 0) [0, 1, 2, 4] [Some 3]"
    unfolding r0 by (simp only:) simp
  show ?thesis using u s h g f e d turn by simp
qed

text \<open>
  C8. An absent, an empty and an unparseable blob give the empty map, as the claim says;
  the blob \<open>not json\<close> is one of them. The code breaks the claim on a blob that is JSON
  but no selection map: for the text \<open>null\<close> the initializer returns \<open>null\<close>, not an
  empty map, and the first render throws a \<open>TypeError\<close> at
  \<open>Object.keys(selectedMap)\<close>.
\<close>

theorem init_null_blob_breaks_render:
  "initSelectedMap sample_parse (Some ''null'') = JNull \<and>
   initSelectedMap sample_parse (Some ''null'') \<noteq> JObject [] \<and>
   selected_count (initSelectedMap sample_parse (Some ''null'')) = Inl TypeError \<and>
   initSelectedMap sample_parse None = JObject [] \<and>
   initSelectedMap sample_parse (Some ''not json'') = JObject [] \<and>
   selected_count (initSelectedMap sample_parse (Some ''not json'')) = Inr 0"
  by (simp add: initSelectedMap_def sample_parse_def)

text \<open>
  C10. Whatever the strategy and the target count, every picked index is a defined
  number in \<open>[0, available)\<close>, so the lookup in the buffer finds a row for it and the
  \<open>forEach\<close> skips nothing: it writes as many rows as there are indices.
\<close>

theorem indices_within_buffer:
  assumes "unit_draws rnd"
  shows "(\<forall>i \<in> set (picked_indices api rnd st).
            (\<exists>k. i = Some k \<and> 0 \<le> k \<and> k < int (length (fst (gather api st)))) \<and>
            at_index (fst (gather api st)) i \<noteq> None) \<and>
         length (picked_items (fst (gather api st)) (picked_indices api rnd st)) =
           length (picked_indices api rnd st)"
proof -
  define c where "c = fst (gather api st)"
  have rng: "\<forall>i \<in> set (picked_indices api rnd st). \<exists>k. i = Some k \<and> 0 \<le> k \<and> k < int (length c)"
    using choose_indices_in_range[OF assms, of "min (target_count st) (int (length c))" "int (length c)"
            "strategy st" "selectNumber st"]
    by (simp add: picked_indices_def Let_def c_def)
  then have def: "\<forall>i \<in> set (picked_indices api rnd st). at_index c i \<noteq> None"
    by (auto simp: at_index_def)
  then have "length (picked_items c (picked_indices api rnd st)) = length (picked_indices api rnd st)"
    by (rule picked_items_all)
  then show ?thesis using rng def unfolding c_def by simp
qed

theorem indices_within_buffer_witness:
  "unit_draws (draws_of [draw_max, draw_0_6]) \<and>
   picked_indices two_per_page (draws_of [draw_max, draw_0_6])
     (mk_state [mk_artwork 1, mk_artwork 2] 1 36 (Some 3) Random True)
     = [Some 3, Some 1, Some 0] \<and>
   at_index (fst (gather two_per_page (mk_state [mk_artwork 1, mk_artwork 2] 1 36 (Some 3) Random True)))
     (Some 3) \<noteq> None \<and>
   length (picked_items (fst (gather two_per_page (mk_state [mk_artwork 1, mk_artwork 2] 1 36 (Some 3) Random True)))
             (picked_indices two_per_page (draws_of [draw_max, draw_0_6])
                (mk_state [mk_artwork 1, mk_artwork 2] 1 36 (Some 3) Random True))) = 3"
proof -
  let ?S = "mk_state [mk_artwork 1, mk_artwork 2] 1 36 (Some 3) Random True"
  let ?R = "draws_of [draw_max, draw_0_6]"
  have u: "unit_draws ?R"
    by (rule unit_draws_of) (simp add: draw_0_6_def draw_max_def below_one_def)
  have e: "picked_indices two_per_page ?R ?S = [Some 3, Some 1, Some 0]"
    by (simp add: scenario_eval)
  then have mem: "Some 3 \<in> set (picked_indices two_per_page ?R ?S)" by simp
  note t = indices_within_buffer[OF u, of two_per_page ?S]
  from t have len: "length (picked_items (fst (gather two_per_page ?S))
                              (picked_indices two_per_page ?R ?S))
        = length (picked_indices two_per_page ?R ?S)" by blast
  from t mem have df: "at_index (fst (gather two_per_page ?S)) (Some 3) \<noteq> None" by blast
  show ?thesis using u e len df by simp
qed

end
